theory Spec2Isabelle
  imports Main "HOL-Library.Word"
begin

unbundle bit_operations_syntax

section \<open>Machine types of the driver\<close>

text \<open>
  The driver \<^verbatim>\<open>secure-linkage.cc\<close> works on \<^verbatim>\<open>std::vector<int64_t>\<close>
  (\<^verbatim>\<open>typedef std::vector<int64_t> CLK\<close>). A vector is a list, an \<^verbatim>\<open>int64_t\<close> a
  64-bit word read as two's complement by \<open>sint\<close>, a \<^verbatim>\<open>size_t\<close> index a natural
  number (no index of the program leaves the 64-bit range), an \<^verbatim>\<open>int\<close> a 32-bit word.
  Signed overflow is undefined in C++; the embedding gives it the two's-complement
  wrap-around of the machine arithmetic.
\<close>

type_synonym int64 = "64 word"
type_synonym int32 = "32 word"
type_synonym CLK = "int64 list"

text \<open>A read past the end of a vector is undefined in C++; the embedding makes it a value.\<close>

datatype fault = OutOfBounds

section \<open>The plaintext reference \<^verbatim>\<open>mat_vec_prod\<close>\<close>

text \<open>
  \<^verbatim>\<open>std::inner_product(first1, last1, first2, init)\<close> runs over the first range and
  advances the second iterator along with it:
  \<^verbatim>\<open>for (; first1 != last1; ++first1, ++first2) init = init + *first1 * *first2;\<close>
  so a second range shorter than the first one is read past its end. The initial
  value \<^verbatim>\<open>0L\<close> is a \<^verbatim>\<open>long\<close>, 64 bits wide like the elements (the LP64 data
  model of the Linux targets).
\<close>

fun inner_product :: "int64 list \<Rightarrow> int64 list \<Rightarrow> int64 \<Rightarrow> fault + int64" where
  "inner_product [] ys init = Inr init"
| "inner_product (x # xs) [] init = Inl OutOfBounds"
| "inner_product (x # xs) (y # ys) init = inner_product xs ys (init + x * y)"

text \<open>
  The loop \<^verbatim>\<open>for (auto &clk : clks)\<close> of \<^verbatim>\<open>mat_vec_prod\<close>, with the result vector
  \<^verbatim>\<open>res\<close> as accumulator: two \<^verbatim>\<open>push_back\<close> per CLK.
\<close>

fun mat_vec_prod_loop :: "CLK list \<Rightarrow> CLK \<Rightarrow> CLK \<Rightarrow> int64 list \<Rightarrow> fault + int64 list" where
  "mat_vec_prod_loop [] row1 row2 res = Inr res"
| "mat_vec_prod_loop (clk # clks) row1 row2 res =
     (case inner_product clk row1 0 of
        Inl e \<Rightarrow> Inl e
      | Inr a \<Rightarrow>
          (case inner_product clk row2 0 of
             Inl e \<Rightarrow> Inl e
           | Inr b \<Rightarrow> mat_vec_prod_loop clks row1 row2 (res @ [a, b])))"

text \<open>
  \<^verbatim>\<open>clks[0]\<close> and \<^verbatim>\<open>clks[1]\<close> are taken before the loop, whatever the size of
  \<^verbatim>\<open>clks\<close>.
\<close>

definition mat_vec_prod :: "CLK list \<Rightarrow> fault + int64 list" where
  "mat_vec_prod clks =
     (if length clks \<le> 0 then Inl OutOfBounds
      else if length clks \<le> 1 then Inl OutOfBounds
      else mat_vec_prod_loop clks (clks ! 0) (clks ! 1) [])"

text \<open>
  The exact inner product of two vectors of machine integers, as a mathematical
  integer: the sum over the positions of the first vector.
\<close>

definition exact_inner_product :: "int64 list \<Rightarrow> int64 list \<Rightarrow> int" where
  "exact_inner_product a b = (\<Sum>j<length a. sint (a ! j) * sint (b ! j))"

section \<open>The comparison \<^verbatim>\<open>check_result\<close>\<close>

text \<open>
  What \<^verbatim>\<open>operator<<\<close> writes for an unsigned size and for an \<^verbatim>\<open>int\<close>: the decimal
  digits, with a minus sign before a negative value.
\<close>

function decimal :: "nat \<Rightarrow> string" where
  "decimal n =
     (if n < 10 then [char_of (48 + n)]
      else decimal (n div 10) @ [char_of (48 + n mod 10)])"
  by pat_completeness auto
termination
  by (relation "measure id") auto

declare decimal.simps [simp del]

definition decimal_int :: "int \<Rightarrow> string" where
  "decimal_int k = (if k < 0 then CHR ''-'' # decimal (nat (- k)) else decimal (nat k))"

text \<open>
  The state \<^verbatim>\<open>check_result\<close> can reach: the two vectors it receives by reference
  and the characters written to \<^verbatim>\<open>cout\<close>.
\<close>

record check_state =
  expected :: "int64 list"
  "output" :: "int64 list"
  cout :: string

text \<open>
  The loop \<^verbatim>\<open>for (size_t i = 0; i < output.size(); ++i)\<close> with its two \<^verbatim>\<open>int\<close>
  variables. It runs only after the sizes were found equal, so \<^verbatim>\<open>expected[i]\<close> is in
  range. \<^verbatim>\<open>(int)i\<close> keeps the low 32 bits of the index.
\<close>

function check_loop :: "int64 list \<Rightarrow> int64 list \<Rightarrow> nat \<Rightarrow> int32 \<Rightarrow> int32 \<Rightarrow> int32 \<times> int32" where
  "check_loop exp out i first_wrong nwrong =
     (if i < length out then
        (if out ! i \<noteq> exp ! i then
           check_loop exp out (Suc i)
             (if first_wrong <s 0 then word_of_nat i else first_wrong) (nwrong + 1)
         else check_loop exp out (Suc i) first_wrong nwrong)
      else (first_wrong, nwrong))"
  by pat_completeness auto
termination
  by (relation "measure (\<lambda>(exp, out, i, first_wrong, nwrong). length out - i)") auto

declare check_loop.simps [simp del]

definition check_result :: "string \<Rightarrow> check_state \<Rightarrow> check_state" where
  "check_result pre s =
     (if length (output s) \<noteq> length (expected s) then
        s\<lparr>cout := cout s @ pre @ '': dimension error: expected size ''
               @ decimal (length (expected s)) @ '', got size ''
               @ decimal (length (output s)) @ ''\<newline>''\<rparr>
      else
        (case check_loop (expected s) (output s) 0 (- 1) 0 of
           (first_wrong, nwrong) \<Rightarrow>
             if 0 <s nwrong then
               s\<lparr>cout := cout s @ pre @ '': '' @ decimal_int (sint nwrong) @ ''/''
                      @ decimal (length (output s)) @ '' failures (first: ''
                      @ decimal_int (sint first_wrong) @ '')'' @ ''\<newline>''\<rparr>
             else s))"

text \<open>
  The number of positions from \<open>i\<close> on at which \<open>out\<close> differs from \<open>exp\<close>: what the
  loop counts, as a natural number.
\<close>

definition mismatches :: "int64 list \<Rightarrow> int64 list \<Rightarrow> nat \<Rightarrow> nat" where
  "mismatches exp out i = length (filter (\<lambda>j. out ! j \<noteq> exp ! j) [i..<length out])"

section \<open>The data \<^verbatim>\<open>main\<close> builds\<close>

text \<open>The constants at the head of \<^verbatim>\<open>main\<close>.\<close>

definition plain_mod :: nat where
  "plain_mod = 40961"

definition poldeg :: nat where
  "poldeg = 4096"

definition nclks :: nat where
  "nclks = poldeg div 2"

definition clksz :: nat where
  "clksz = 512"

text \<open>
  \<^verbatim>\<open>Linmat[i] = (i*17 % 31) & 1\<close>: the arithmetic is that of the 64-bit unsigned
  \<^verbatim>\<open>size_t\<close> index, and the result is stored as an \<^verbatim>\<open>int64_t\<close>.
\<close>

definition Linmat_at :: "nat \<Rightarrow> int64" where
  "Linmat_at i = ((word_of_nat i * 17) mod 31) AND 1"

definition Linmat :: "int64 list" where
  "Linmat = map Linmat_at [0..<nclks * clksz]"

text \<open>\<^verbatim>\<open>vector<int64_t> &Rinmat = Linmat\<close>: the right buffer is the left one.\<close>

definition Rinmat :: "int64 list" where
  "Rinmat = Linmat"

text \<open>
  The loop that cuts \<^verbatim>\<open>Linmat\<close> into \<^verbatim>\<open>nclks\<close> CLKs of \<^verbatim>\<open>clksz\<close> elements: the
  iterator \<^verbatim>\<open>iter\<close> is the part of the buffer still to be read.
\<close>

fun clks_loop :: "nat \<Rightarrow> int64 list \<Rightarrow> CLK list \<Rightarrow> CLK list" where
  "clks_loop 0 iter clks = clks"
| "clks_loop (Suc n) iter clks = clks_loop n (drop clksz iter) (clks @ [take clksz iter])"

definition main_clks :: "CLK list" where
  "main_clks = clks_loop nclks Linmat []"

definition main_expected :: "fault + int64 list" where
  "main_expected = mat_vec_prod main_clks"

text \<open>
  Two ways to read a flat buffer as a matrix of \<open>rows\<close> by \<open>cols\<close> elements: row by
  row (row-major, element \<open>(i, j)\<close> at \<open>i * cols + j\<close>) and column by column
  (element \<open>(i, j)\<close> at \<open>j * rows + i\<close>).
\<close>

definition row_major :: "'a list \<Rightarrow> nat \<Rightarrow> nat \<Rightarrow> nat \<Rightarrow> nat \<Rightarrow> 'a" where
  "row_major buf rows cols i j = buf ! (i * cols + j)"

definition column_major :: "'a list \<Rightarrow> nat \<Rightarrow> nat \<Rightarrow> nat \<Rightarrow> nat \<Rightarrow> 'a" where
  "column_major buf rows cols i j = buf ! (j * rows + i)"

section \<open>The linkage engine, from the specification\<close>

text \<open>
  Modelled from the spec: the engine behind \<^verbatim>\<open>seclink.h\<close> (\<^verbatim>\<open>seclink_init_ctx\<close>,
  \<^verbatim>\<open>seclink_encrypt_left\<close>, \<^verbatim>\<open>seclink_encrypt_right\<close>, \<^verbatim>\<open>seclink_multiply\<close>,
  \<^verbatim>\<open>seclink_decrypt\<close>) is not among the sources; only its caller \<^verbatim>\<open>main\<close> is. The
  definitions of this section follow sections 3 and 4 of the specification. The
  scheme is taken as ideal: a ciphertext is represented by the vector of plaintext slot
  values (residues modulo the plaintext modulus) that it decrypts to, one slot per ring
  coefficient, and a homomorphic operation by the same operation on the slots, as the
  glossary of the specification defines homomorphic encryption. Keys, the randomness of
  encryption and the noise budget are left out.
\<close>

datatype seclink_error =
  InvalidParameters | DimensionMismatch | NoiseBudgetExhausted
  | AllocationFailure | KeyGenerationFailure

record seclink_ctx =
  ring_dimension :: nat
  plaintext_modulus :: nat

datatype packing_kind = LeftRowPacked | RightColumnPacked | Product

type_synonym ciphertext = "int list"

record encrypted_matrix =
  shape :: "nat \<times> nat"
  packing_kind :: packing_kind
  ciphertexts :: "ciphertext list"

text \<open>
  Modelled from the spec: the ring dimension of a context (\<^verbatim>\<open>seclink_ctx_t\<close> in the
  driver) is a power of two and its plaintext modulus is at least 2 (section 3;
  primality plays no part below).
\<close>

function power_of_two :: "nat \<Rightarrow> bool" where
  "power_of_two n =
     (if n = 1 then True
      else if n = 0 \<or> odd n then False
      else power_of_two (n div 2))"
  by pat_completeness auto
termination
  by (relation "measure id") auto

declare power_of_two.simps [simp del]

definition valid_context :: "seclink_ctx \<Rightarrow> bool" where
  "valid_context ctx \<longleftrightarrow> power_of_two (ring_dimension ctx) \<and> 2 \<le> plaintext_modulus ctx"

text \<open>
  Modelled from the spec: the batching encoder puts a vector of integers into the slots
  of one plaintext, reduced modulo the plaintext modulus, the unused slots being 0.
\<close>

definition encode :: "seclink_ctx \<Rightarrow> int list \<Rightarrow> ciphertext" where
  "encode ctx xs =
     map (\<lambda>x. x mod int (plaintext_modulus ctx)) xs
       @ replicate (ring_dimension ctx - length xs) 0"

text \<open>
  Modelled from the spec: slot-wise multiplication and addition of two ciphertexts,
  and the cyclic shift of the slots that a rotation key allows.
\<close>

definition ct_multiply :: "seclink_ctx \<Rightarrow> ciphertext \<Rightarrow> ciphertext \<Rightarrow> ciphertext" where
  "ct_multiply ctx a b = map2 (\<lambda>x y. x * y mod int (plaintext_modulus ctx)) a b"

definition ct_add :: "seclink_ctx \<Rightarrow> ciphertext \<Rightarrow> ciphertext \<Rightarrow> ciphertext" where
  "ct_add ctx a b = map2 (\<lambda>x y. (x + y) mod int (plaintext_modulus ctx)) a b"

definition ct_rotate :: "nat \<Rightarrow> ciphertext \<Rightarrow> ciphertext" where
  "ct_rotate step a = rotate step a"

text \<open>
  Modelled from the spec (section 4.5, step 2): the rotate-and-add tree. The
  ciphertext is rotated by half the live spread and added to itself, which halves the
  spread, until the spread is one slot.
\<close>

function rotate_and_add :: "seclink_ctx \<Rightarrow> nat \<Rightarrow> ciphertext \<Rightarrow> ciphertext" where
  "rotate_and_add ctx spread ct =
     (if spread \<le> 1 then ct
      else rotate_and_add ctx (spread div 2)
             (ct_add ctx ct (ct_rotate (spread div 2) ct)))"
  by pat_completeness auto
termination
  by (relation "measure (\<lambda>(ctx, spread, ct). spread)") auto

declare rotate_and_add.simps [simp del]

text \<open>
  Modelled from the spec (section 4.3): \<open>encrypt_left\<close> packs each row of the
  row-major matrix into one slot vector, in row order, so that row \<open>i\<close> is ciphertext
  \<open>i\<close> from slot 0 on; the columns must fit the ring dimension. A buffer shorter than
  its shape is refused (the C interface would read past its end).
\<close>

definition encrypt_left :: "seclink_ctx \<Rightarrow> int list \<Rightarrow> nat \<Rightarrow> nat \<Rightarrow> seclink_error + encrypted_matrix" where
  "encrypt_left ctx matrix rows cols =
     (if ring_dimension ctx < cols \<or> length matrix < rows * cols then Inl InvalidParameters
      else Inr \<lparr>shape = (rows, cols), packing_kind = LeftRowPacked,
                ciphertexts =
                  map (\<lambda>i. encode ctx (map (\<lambda>j. row_major matrix rows cols i j) [0..<cols]))
                    [0..<rows]\<rparr>)"

text \<open>
  Modelled from the spec (section 4.4): \<open>encrypt_right\<close> puts each of the \<open>cols\<close>
  probe columns, a vector of \<open>rows\<close> elements, into one slot vector aligned with the
  rows of the left packing. The buffer holds the columns one after the other: this is
  the layout the driver passes (the first two rows of \<^verbatim>\<open>Linmat\<close> as the two columns of
  \<^verbatim>\<open>Rinmat\<close>), and section 6 of the specification calls this argument a flat matrix
  where it calls the left one a flat row-major matrix.
\<close>

definition encrypt_right :: "seclink_ctx \<Rightarrow> int list \<Rightarrow> nat \<Rightarrow> nat \<Rightarrow> seclink_error + encrypted_matrix" where
  "encrypt_right ctx matrix rows cols =
     (if ring_dimension ctx < rows \<or> length matrix < rows * cols then Inl InvalidParameters
      else Inr \<lparr>shape = (rows, cols), packing_kind = RightColumnPacked,
                ciphertexts =
                  map (\<lambda>c. encode ctx (map (\<lambda>j. column_major matrix rows cols j c) [0..<rows]))
                    [0..<cols]\<rparr>)"

text \<open>
  Modelled from the spec (section 4.5): \<open>multiply\<close> refuses operands whose packing
  kinds or inner dimensions do not fit. Otherwise every left ciphertext is multiplied
  slot by slot with every right-column ciphertext, each product is reduced by the
  rotate-and-add tree over the whole slot vector, and the reduced ciphertexts are
  assembled in row order, then column order.
\<close>

definition multiply :: "seclink_ctx \<Rightarrow> encrypted_matrix \<Rightarrow> encrypted_matrix \<Rightarrow> seclink_error + encrypted_matrix" where
  "multiply ctx left right =
     (if packing_kind left \<noteq> LeftRowPacked \<or> packing_kind right \<noteq> RightColumnPacked
         \<or> snd (shape left) \<noteq> fst (shape right)
      then Inl DimensionMismatch
      else Inr \<lparr>shape = (fst (shape left), snd (shape right)), packing_kind = Product,
                ciphertexts =
                  concat (map (\<lambda>l. map (\<lambda>r. rotate_and_add ctx (ring_dimension ctx)
                                              (ct_multiply ctx l r))
                                      (ciphertexts right))
                            (ciphertexts left))\<rparr>)"

text \<open>
  Modelled from the spec (section 4.6): a decrypted slot of a product is taken modulo
  the plaintext modulus and centred to the symmetric range of representatives.
\<close>

definition centered :: "seclink_ctx \<Rightarrow> int \<Rightarrow> int" where
  "centered ctx x =
     (let p = int (plaintext_modulus ctx); r = x mod p
      in if 2 * r < p then r else r - p)"

text \<open>
  Modelled from the spec: the value a decryption finds in slot \<open>s\<close> of a ciphertext;
  a slot the ciphertext does not have reads as 0.
\<close>

definition slot :: "ciphertext \<Rightarrow> nat \<Rightarrow> int" where
  "slot ct s = (if s < length ct then ct ! s else 0)"

text \<open>
  Modelled from the spec (sections 4.6 and 8): \<open>decrypt\<close> refuses a buffer shape
  other than the shape of the matrix. Of a product it reads slot 0 of each ciphertext
  and writes the centred values, in the order of the ciphertexts (section 4.6). Of a
  matrix that was only packed it reads the first slots of each row or column
  ciphertext and writes their residues between 0 and the plaintext modulus, so that
  the single-matrix round trip gives back such values as they were (section 8,
  property 1).
\<close>

definition decrypt :: "seclink_ctx \<Rightarrow> nat \<Rightarrow> nat \<Rightarrow> encrypted_matrix \<Rightarrow> seclink_error + int list" where
  "decrypt ctx rows cols m =
     (if shape m \<noteq> (rows, cols) then Inl DimensionMismatch
      else Inr (case packing_kind m of
                  Product \<Rightarrow> map (\<lambda>ct. centered ctx (slot ct 0)) (ciphertexts m)
                | LeftRowPacked \<Rightarrow>
                    concat (map (\<lambda>ct. map (\<lambda>j. slot ct j mod int (plaintext_modulus ctx))
                                        [0..<cols])
                              (ciphertexts m))
                | RightColumnPacked \<Rightarrow>
                    concat (map (\<lambda>ct. map (\<lambda>j. slot ct j mod int (plaintext_modulus ctx))
                                        [0..<rows])
                              (ciphertexts m))))"

text \<open>
  The sequence of engine calls of \<^verbatim>\<open>main\<close> (\<^verbatim>\<open>seclink_encrypt_left\<close>,
  \<^verbatim>\<open>seclink_encrypt_right\<close>, \<^verbatim>\<open>seclink_multiply\<close>, \<^verbatim>\<open>seclink_decrypt\<close>): encrypt
  the left matrix of \<open>rows\<close> by \<open>cols\<close> elements, encrypt the right matrix of
  \<open>cols\<close> by \<open>k\<close> elements, multiply, decrypt into a buffer of \<open>rows\<close> by \<open>k\<close>
  elements. An error ends the sequence.
\<close>

definition linkage :: "seclink_ctx \<Rightarrow> int list \<Rightarrow> nat \<Rightarrow> nat \<Rightarrow> int list \<Rightarrow> nat \<Rightarrow> seclink_error + int list" where
  "linkage ctx lmat rows cols rmat k =
     (case encrypt_left ctx lmat rows cols of
        Inl e \<Rightarrow> Inl e
      | Inr left \<Rightarrow>
          (case encrypt_right ctx rmat cols k of
             Inl e \<Rightarrow> Inl e
           | Inr right \<Rightarrow>
               (case multiply ctx left right of
                  Inl e \<Rightarrow> Inl e
                | Inr prodm \<Rightarrow> decrypt ctx rows k prodm)))"

text \<open>
  The plaintext reference: the exact product of the row-major matrix \<open>lmat\<close> of
  \<open>rows\<close> by \<open>cols\<close> elements with the matrix \<open>rmat\<close> of \<open>cols\<close> by \<open>k\<close> elements
  held column by column, as a row-major matrix of \<open>rows\<close> by \<open>k\<close> elements.
\<close>

definition matrix_entry :: "int list \<Rightarrow> nat \<Rightarrow> nat \<Rightarrow> int list \<Rightarrow> nat \<Rightarrow> nat \<Rightarrow> nat \<Rightarrow> int" where
  "matrix_entry lmat rows cols rmat k i c =
     (\<Sum>j<cols. row_major lmat rows cols i j * column_major rmat cols k j c)"

definition matrix_product :: "int list \<Rightarrow> nat \<Rightarrow> nat \<Rightarrow> int list \<Rightarrow> nat \<Rightarrow> int list" where
  "matrix_product lmat rows cols rmat k =
     concat (map (\<lambda>i. map (\<lambda>c. matrix_entry lmat rows cols rmat k i c) [0..<k]) [0..<rows])"

text \<open>
  The single-matrix round trip: a matrix is encrypted with \<open>encrypt_left\<close> and
  decrypted again, with no multiplication in between.
\<close>

definition round_trip :: "seclink_ctx \<Rightarrow> int list \<Rightarrow> nat \<Rightarrow> nat \<Rightarrow> seclink_error + int list" where
  "round_trip ctx matrix rows cols =
     (case encrypt_left ctx matrix rows cols of
        Inl e \<Rightarrow> Inl e
      | Inr m \<Rightarrow> decrypt ctx rows cols m)"

section \<open>The engine calls of \<^verbatim>\<open>main\<close>\<close>

text \<open>
  \<^verbatim>\<open>seclink_init_ctx(&ctx, poldeg, plain_mod, NULL)\<close>, then the two encryptions, the
  multiplication and the decryption into the vector \<^verbatim>\<open>output\<close> of \<^verbatim>\<open>nclks * 2\<close>
  elements. The buffers hold \<^verbatim>\<open>int64_t\<close> values, the engine computes on integers.
\<close>

definition main_ctx :: seclink_ctx where
  "main_ctx = \<lparr>ring_dimension = poldeg, plaintext_modulus = plain_mod\<rparr>"

definition main_output :: "seclink_error + int64 list" where
  "main_output =
     (case linkage main_ctx (map sint Linmat) nclks clksz (map sint Rinmat) 2 of
        Inl e \<Rightarrow> Inl e
      | Inr out \<Rightarrow> Inr (map word_of_int out))"

section \<open>Properties of \<^verbatim>\<open>mat_vec_prod\<close>\<close>

lemma exact_inner_product_Cons:
  "exact_inner_product (x # xs) (y # ys) = sint x * sint y + exact_inner_product xs ys"
  by (simp add: exact_inner_product_def sum.lessThan_Suc_shift del: sum.lessThan_Suc)

lemma inner_product_exact:
  "length xs \<le> length ys \<Longrightarrow>
   inner_product xs ys init = Inr (init + word_of_int (exact_inner_product xs ys))"
proof (induction xs ys init rule: inner_product.induct)
  case (1 ys init)
  then show ?case by (simp add: exact_inner_product_def)
next
  case (2 x xs init)
  then show ?case by simp
next
  case (3 x xs y ys init)
  then show ?case by (simp add: exact_inner_product_Cons algebra_simps)
qed

lemma inner_product_short:
  "length ys < length xs \<Longrightarrow> inner_product xs ys init = Inl OutOfBounds"
  by (induction xs ys init rule: inner_product.induct) simp_all

lemma mat_vec_prod_loop_fits:
  "\<forall>clk \<in> set clks. length clk \<le> length row1 \<and> length clk \<le> length row2 \<Longrightarrow>
   mat_vec_prod_loop clks row1 row2 res =
     Inr (res @ concat (map (\<lambda>clk. [word_of_int (exact_inner_product clk row1),
                                      word_of_int (exact_inner_product clk row2)]) clks))"
  by (induction clks arbitrary: res) (simp_all add: inner_product_exact)

lemma length_concat_pairs: "length (concat (map (\<lambda>x. [f x, g x]) xs)) = 2 * length xs"
  by (induction xs) simp_all

lemma nth_concat_pairs:
  "i < length xs \<Longrightarrow>
   concat (map (\<lambda>x. [f x, g x]) xs) ! (2 * i) = f (xs ! i) \<and>
   concat (map (\<lambda>x. [f x, g x]) xs) ! Suc (2 * i) = g (xs ! i)"
proof (induction xs arbitrary: i)
  case Nil
  then show ?case by simp
next
  case (Cons x xs)
  show ?case
  proof (cases i)
    case 0
    then show ?thesis by simp
  next
    case (Suc k)
    with Cons.prems have "k < length xs" by simp
    from Cons.IH [OF this] show ?thesis using Suc by simp
  qed
qed

lemma mat_vec_prod_equal_lengths:
  assumes "2 \<le> length clks" and "\<forall>clk \<in> set clks. length clk = m"
  shows "mat_vec_prod clks =
     Inr (concat (map (\<lambda>clk. [word_of_int (exact_inner_product clk (clks ! 0)),
                               word_of_int (exact_inner_product clk (clks ! 1))]) clks))"
proof -
  from assms(1) have "clks ! 0 \<in> set clks" and "clks ! 1 \<in> set clks"
    by (simp_all only: nth_mem)
  with assms(2) have "length (clks ! 0) = m" and "length (clks ! 1) = m"
    by blast+
  with assms(2) have
    "\<forall>clk \<in> set clks. length clk \<le> length (clks ! 0) \<and> length clk \<le> length (clks ! 1)"
    by simp
  from mat_vec_prod_loop_fits [OF this, of "[]"] assms(1) show ?thesis
    by (auto simp add: mat_vec_prod_def)
qed

lemma sint_word_of_int_int64:
  "- (2 ^ 63) \<le> e \<Longrightarrow> e < 2 ^ 63 \<Longrightarrow> sint (word_of_int e :: int64) = e"
  by (simp add: signed_of_int signed_take_bit_int_eq_self)

lemma mat_vec_prod_loop_overrun:
  "\<exists>clk \<in> set clks. length row1 < length clk \<or> length row2 < length clk \<Longrightarrow>
   mat_vec_prod_loop clks row1 row2 res = Inl OutOfBounds"
proof (induction clks arbitrary: res)
  case Nil
  then show ?case by simp
next
  case (Cons clk clks)
  show ?case
  proof (cases "length row1 < length clk")
    case True
    then show ?thesis by (simp add: inner_product_short)
  next
    case fits1: False
    show ?thesis
    proof (cases "length row2 < length clk")
      case True
      with fits1 show ?thesis by (simp add: inner_product_exact inner_product_short)
    next
      case False
      with fits1 Cons.prems
      have "\<exists>clk \<in> set clks. length row1 < length clk \<or> length row2 < length clk"
        by auto
      from Cons.IH [OF this] fits1 False show ?thesis
        by (simp add: inner_product_exact)
    qed
  qed
qed

lemma mat_vec_prod_out_of_bounds_iff:
  "mat_vec_prod clks = Inl OutOfBounds \<longleftrightarrow>
     length clks < 2 \<or>
     (\<exists>clk \<in> set clks. length (clks ! 0) < length clk \<or> length (clks ! 1) < length clk)"
proof (cases "length clks < 2")
  case True
  then show ?thesis by (simp add: mat_vec_prod_def)
next
  case False
  then have loop: "mat_vec_prod clks = mat_vec_prod_loop clks (clks ! 0) (clks ! 1) []"
    by (auto simp add: mat_vec_prod_def)
  show ?thesis
  proof (cases "\<exists>clk \<in> set clks. length (clks ! 0) < length clk \<or> length (clks ! 1) < length clk")
    case True
    from mat_vec_prod_loop_overrun [OF this] loop True show ?thesis by simp
  next
    case fits: False
    then have "\<forall>clk \<in> set clks. length clk \<le> length (clks ! 0) \<and> length clk \<le> length (clks ! 1)"
      by (simp add: not_less)
    from mat_vec_prod_loop_fits [OF this, of "[]"] loop fits False show ?thesis by simp
  qed
qed

text \<open>
  C4: for every list of at least two CLKs of one length, \<^verbatim>\<open>mat_vec_prod\<close> returns a
  vector of twice as many elements as there are CLKs; its element \<open>2 * i\<close> is the inner
  product of CLK \<open>i\<close> with CLK 0 and its element \<open>2 * i + 1\<close> the inner product of
  CLK \<open>i\<close> with CLK 1, each reduced to 64 bits, and each the exact integer whenever
  that fits an \<^verbatim>\<open>int64_t\<close>. Only the first two rows are used as probes: two columns,
  whatever the number of CLKs.
\<close>

theorem mat_vec_prod_two_column_probe:
  assumes "2 \<le> length clks" and "\<forall>clk \<in> set clks. length clk = m"
  shows "\<exists>res. mat_vec_prod clks = Inr res \<and> length res = 2 * length clks \<and>
           (\<forall>i<length clks. \<forall>c<2.
              res ! (2 * i + c) = word_of_int (exact_inner_product (clks ! i) (clks ! c)) \<and>
              (- (2 ^ 63) \<le> exact_inner_product (clks ! i) (clks ! c) \<and>
               exact_inner_product (clks ! i) (clks ! c) < 2 ^ 63 \<longrightarrow>
                 sint (res ! (2 * i + c)) = exact_inner_product (clks ! i) (clks ! c)))"
proof -
  let ?f = "\<lambda>clk. word_of_int (exact_inner_product clk (clks ! 0)) :: int64"
  let ?g = "\<lambda>clk. word_of_int (exact_inner_product clk (clks ! 1)) :: int64"
  let ?res = "concat (map (\<lambda>clk. [?f clk, ?g clk]) clks)"
  have res: "mat_vec_prod clks = Inr ?res"
    by (rule mat_vec_prod_equal_lengths [OF assms])
  have len: "length ?res = 2 * length clks"
    by (rule length_concat_pairs)
  have entry: "?res ! (2 * i + c) = word_of_int (exact_inner_product (clks ! i) (clks ! c))"
    if "i < length clks" and "c < 2" for i c
  proof -
    from that(2) have "c = 0 \<or> c = 1" by auto
    with nth_concat_pairs [OF that(1), of ?f ?g] show ?thesis by auto
  qed
  show ?thesis
  proof (intro exI conjI allI impI)
    show "mat_vec_prod clks = Inr ?res" by (rule res)
    show "length ?res = 2 * length clks" by (rule len)
  next
    fix i c :: nat
    assume "i < length clks" and "c < 2"
    then show "?res ! (2 * i + c) = word_of_int (exact_inner_product (clks ! i) (clks ! c))"
      by (rule entry)
  next
    fix i c :: nat
    assume "i < length clks" and "c < 2"
      and "- (2 ^ 63) \<le> exact_inner_product (clks ! i) (clks ! c) \<and>
           exact_inner_product (clks ! i) (clks ! c) < 2 ^ 63"
    then show "sint (?res ! (2 * i + c)) = exact_inner_product (clks ! i) (clks ! c)"
      by (simp only: entry sint_word_of_int_int64)
  qed
qed

theorem mat_vec_prod_two_column_probe_witness:
  "2 \<le> length [[1, 0, 1], [1, 1, 0], [0, 1, 1 :: int64]] \<and>
   list_all (\<lambda>clk. length clk = 3) [[1, 0, 1], [1, 1, 0], [0, 1, 1 :: int64]] \<and>
   mat_vec_prod [[1, 0, 1], [1, 1, 0], [0, 1, 1]] = Inr [2, 1, 1, 2, 1, 1]"
proof -
  let ?clks = "[[1, 0, 1], [1, 1, 0], [0, 1, 1]] :: CLK list"
  have len: "2 \<le> length ?clks" by simp
  have eq: "\<forall>clk \<in> set ?clks. length clk = 3" by simp
  from mat_vec_prod_two_column_probe [OF len eq] len eq show ?thesis
    by (simp add: mat_vec_prod_def)
qed

text \<open>
  C8: \<^verbatim>\<open>mat_vec_prod\<close> reads \<^verbatim>\<open>clks[0]\<close> and \<^verbatim>\<open>clks[1]\<close> unconditionally and, for
  each CLK, as many elements of these two rows as the CLK has. With at least two
  CLKs, all of one length, no read is out of bounds: the function returns a vector.
  With no CLK or one CLK the indexing is out of bounds. In general a read is out of
  bounds exactly when there are fewer than two CLKs or some CLK is longer than CLK 0
  or CLK 1.
\<close>

theorem mat_vec_prod_in_bounds:
  "(2 \<le> length clks \<and> (\<forall>clk \<in> set clks. length clk = m) \<longrightarrow>
      (\<exists>res. mat_vec_prod clks = Inr res)) \<and>
   (length clks < 2 \<longrightarrow> mat_vec_prod clks = Inl OutOfBounds) \<and>
   (mat_vec_prod clks = Inl OutOfBounds \<longleftrightarrow>
      length clks < 2 \<or>
      (\<exists>clk \<in> set clks. length (clks ! 0) < length clk \<or> length (clks ! 1) < length clk))"
proof (intro conjI impI)
  assume "2 \<le> length clks \<and> (\<forall>clk \<in> set clks. length clk = m)"
  then show "\<exists>res. mat_vec_prod clks = Inr res"
    using mat_vec_prod_equal_lengths [of clks m] by simp
next
  assume "length clks < 2"
  then show "mat_vec_prod clks = Inl OutOfBounds"
    by (simp add: mat_vec_prod_def)
next
  show "mat_vec_prod clks = Inl OutOfBounds \<longleftrightarrow>
      length clks < 2 \<or>
      (\<exists>clk \<in> set clks. length (clks ! 0) < length clk \<or> length (clks ! 1) < length clk)"
    by (rule mat_vec_prod_out_of_bounds_iff)
qed

theorem mat_vec_prod_in_bounds_witness:
  "(\<exists>res. mat_vec_prod [[1, 0], [1, 1]] = Inr res) \<and>
   mat_vec_prod [] = Inl OutOfBounds \<and> mat_vec_prod [[1, 0]] = Inl OutOfBounds \<and>
   mat_vec_prod [[1, 0], [1], [1, 1]] = Inl OutOfBounds"
  using mat_vec_prod_in_bounds [of "[[1, 0], [1, 1]]" 2]
    mat_vec_prod_in_bounds [of "[]" 0] mat_vec_prod_in_bounds [of "[[1, 0]]" 2]
    mat_vec_prod_in_bounds [of "[[1, 0], [1], [1, 1]]" 2]
  by simp

section \<open>Properties of \<^verbatim>\<open>check_result\<close>\<close>

lemma mismatches_step:
  "i < length out \<Longrightarrow>
   mismatches exp out i = (if out ! i \<noteq> exp ! i then 1 else 0) + mismatches exp out (Suc i)"
  by (simp add: mismatches_def upt_conv_Cons)

lemma mismatches_done: "\<not> i < length out \<Longrightarrow> mismatches exp out i = 0"
  by (simp add: mismatches_def)

lemma check_loop_nwrong:
  "snd (check_loop exp out i first_wrong nwrong) = nwrong + word_of_nat (mismatches exp out i)"
proof (induction exp out i first_wrong nwrong rule: check_loop.induct)
  case (1 exp out i first_wrong nwrong)
  show ?case
  proof (cases "i < length out")
    case False
    then show ?thesis
      by (subst check_loop.simps) (simp add: mismatches_done)
  next
    case True
    show ?thesis
    proof (cases "out ! i \<noteq> exp ! i")
      case True
      from "1.IH"(1) [OF \<open>i < length out\<close> True] \<open>i < length out\<close> True show ?thesis
        by (subst check_loop.simps) (simp add: mismatches_step)
    next
      case False
      from "1.IH"(2) [OF \<open>i < length out\<close> False] \<open>i < length out\<close> False show ?thesis
        by (subst check_loop.simps) (simp add: mismatches_step)
    qed
  qed
qed

lemma mismatches_zero_iff:
  "mismatches exp out 0 = 0 \<longleftrightarrow> (\<forall>i<length out. out ! i = exp ! i)"
  by (auto simp add: mismatches_def filter_empty_conv)

lemma sint_count:
  "c < 2 ^ 31 \<Longrightarrow> sint (word_of_nat c :: int32) = int c"
  by (simp add: signed_of_nat signed_take_bit_int_eq_self)

lemma positive_count:
  assumes "c < 2 ^ 31"
  shows "(0 <s (word_of_nat c :: int32)) \<longleftrightarrow> 0 < c"
  using sint_count [OF assms] by (simp add: word_sless_alt)

lemma check_loop_fst_snd:
  "check_loop exp out i fw nw = (fst (check_loop exp out i fw nw), nw + word_of_nat (mismatches exp out i))"
  using check_loop_nwrong [of exp out i fw nw] by (simp add: prod_eq_iff)

lemma all_mismatch:
  "mismatches (replicate n 0) (replicate n 1) 0 = n"
proof -
  have "filter (\<lambda>j. replicate n (1::int64) ! j \<noteq> replicate n 0 ! j) [0..<n] = [0..<n]"
    by (rule filter_True) simp
  then show ?thesis by (simp add: mismatches_def)
qed

lemma int32_wrap_zero: "(word_of_nat (2 ^ 32) :: int32) = 0"
  by simp

lemma check_result_all_differ:
  assumes "\<not> 0 <s (word_of_nat n :: int32)"
  shows "cout (check_result pre \<lparr>expected = replicate n 0, output = replicate n 1, cout = c\<rparr>) = c"
proof -
  obtain fw where "check_loop (replicate n 0) (replicate n 1) 0 (- 1) 0 = (fw, word_of_nat n)"
    using check_loop_fst_snd [of "replicate n 0" "replicate n 1" 0 "- 1" 0]
    by (simp add: all_mismatch)
  with assms show ?thesis
    by (simp add: check_result_def)
qed

lemma replicate_differ: "0 < n \<Longrightarrow> replicate n (1 :: int64) ! 0 \<noteq> replicate n (0 :: int64) ! 0"
  by simp

text \<open>
  Where the \<^verbatim>\<open>int\<close> counter does not wrap, that is when fewer than \<open>2 ^ 31\<close> positions
  differ, \<^verbatim>\<open>check_result\<close> writes nothing exactly when \<^verbatim>\<open>output\<close> has the size of
  \<^verbatim>\<open>expected\<close> and agrees with it at every index; when the sizes differ it writes the
  dimension error, a line made of the prefix and the two sizes only; and it leaves both
  vectors as they were.
\<close>

lemma check_result_within_counter_range:
  assumes "mismatches (expected s) (output s) 0 < 2 ^ 31"
  shows "(cout (check_result pre s) = cout s \<longleftrightarrow>
            length (output s) = length (expected s) \<and>
            (\<forall>i<length (output s). output s ! i = expected s ! i)) \<and>
         (length (output s) \<noteq> length (expected s) \<longrightarrow>
            cout (check_result pre s) =
              cout s @ pre @ '': dimension error: expected size ''
                @ decimal (length (expected s)) @ '', got size ''
                @ decimal (length (output s)) @ ''\<newline>'') \<and>
         expected (check_result pre s) = expected s \<and>
         output (check_result pre s) = output s"
proof (cases "length (output s) = length (expected s)")
  case False
  then show ?thesis by (simp add: check_result_def)
next
  case True
  let ?c = "mismatches (expected s) (output s) 0"
  obtain fw where loop: "check_loop (expected s) (output s) 0 (- 1) 0 = (fw, word_of_nat ?c)"
    using check_loop_fst_snd [of "expected s" "output s" 0 "- 1" 0] by simp
  from assms have pos: "0 <s (word_of_nat ?c :: int32) \<longleftrightarrow> 0 < ?c"
    by (rule positive_count)
  have zero: "?c = 0 \<longleftrightarrow> (\<forall>i<length (output s). output s ! i = expected s ! i)"
    by (rule mismatches_zero_iff)
  show ?thesis
  proof (cases "?c = 0")
    case True
    with pos have "\<not> 0 <s (word_of_nat ?c :: int32)" by simp
    with loop \<open>length (output s) = length (expected s)\<close> have "check_result pre s = s"
      by (simp add: check_result_def)
    with True zero \<open>length (output s) = length (expected s)\<close> show ?thesis by simp
  next
    case False
    with pos have "0 <s (word_of_nat ?c :: int32)" by simp
    with loop \<open>length (output s) = length (expected s)\<close>
    have "cout (check_result pre s) \<noteq> cout s"
      and "expected (check_result pre s) = expected s"
      and "output (check_result pre s) = output s"
      by (simp_all add: check_result_def)
    with False zero \<open>length (output s) = length (expected s)\<close> show ?thesis by simp
  qed
qed

text \<open>
  C10: \<^verbatim>\<open>check_result\<close> is written to report every difference, but it counts the
  differing positions in the \<^verbatim>\<open>int\<close> variable \<^verbatim>\<open>nwrong\<close> while the index is a
  \<^verbatim>\<open>size_t\<close>. With two vectors of \<open>2 ^ 32\<close> elements that differ at every index the
  counter has wrapped to 0 when the loop ends, the test \<^verbatim>\<open>nwrong > 0\<close> fails, and
  nothing is written although the sizes are equal and the elements differ.
\<close>

theorem check_result_counter_wraps:
  "cout (check_result ''emat  vec''
      \<lparr>expected = replicate (2 ^ 32) 0, output = replicate (2 ^ 32) 1, cout = []\<rparr>) = [] \<and>
   length (replicate (2 ^ 32) (1 :: int64)) = length (replicate (2 ^ 32) (0 :: int64)) \<and>
   replicate (2 ^ 32) (1 :: int64) ! 0 \<noteq> replicate (2 ^ 32) (0 :: int64) ! 0"
proof (intro conjI)
  have "\<not> 0 <s (word_of_nat (2 ^ 32) :: int32)"
    by (simp only: int32_wrap_zero word_sless_alt)
  then show "cout (check_result ''emat  vec''
      \<lparr>expected = replicate (2 ^ 32) 0, output = replicate (2 ^ 32) 1, cout = []\<rparr>) = []"
    by (rule check_result_all_differ)
  show "length (replicate (2 ^ 32) (1 :: int64)) = length (replicate (2 ^ 32) (0 :: int64))"
    by (simp only: length_replicate)
  have "(0::nat) < 2 ^ 32" by simp
  then show "replicate (2 ^ 32) (1 :: int64) ! 0 \<noteq> replicate (2 ^ 32) (0 :: int64) ! 0"
    by (rule replicate_differ)
qed

section \<open>Properties of the data of \<^verbatim>\<open>main\<close>\<close>

lemma Linmat_at_binary: "Linmat_at i = 0 \<or> Linmat_at i = 1"
  by (simp add: Linmat_at_def and_one_eq mod_2_eq_odd)

lemma length_Linmat: "length Linmat = 1048576"
  by (simp add: Linmat_def nclks_def clksz_def poldeg_def)

lemma Linmat_nth: "i < 1048576 \<Longrightarrow> Linmat ! i = Linmat_at i"
  by (simp add: Linmat_def nclks_def clksz_def poldeg_def)

lemma clks_loop_eq:
  "clks_loop n iter clks = clks @ map (\<lambda>i. take clksz (drop (i * clksz) iter)) [0..<n]"
proof (induction n arbitrary: iter clks)
  case 0
  then show ?case by simp
next
  case (Suc n)
  have "[0..<Suc n] = 0 # map Suc [0..<n]"
    by (simp add: upt_conv_Cons map_Suc_upt del: upt_Suc)
  then show ?case
    by (simp add: Suc.IH o_def add.commute del: upt_Suc)
qed

lemma main_clks_eq:
  "main_clks = map (\<lambda>i. take clksz (drop (i * clksz) Linmat)) [0..<nclks]"
  by (simp add: main_clks_def clks_loop_eq)

lemma length_main_clks: "length main_clks = 2048"
  by (simp add: main_clks_eq nclks_def poldeg_def)

lemma main_clks_row:
  assumes "a < 2048"
  shows "length (main_clks ! a) = 512"
    and "j < 512 \<Longrightarrow> main_clks ! a ! j = Linmat_at (a * 512 + j)"
proof -
  from assms have "a * 512 + 512 \<le> 1048576" by simp
  then show "length (main_clks ! a) = 512"
    using assms by (simp add: main_clks_eq nclks_def poldeg_def clksz_def length_Linmat)
  assume "j < 512"
  with assms have "a * 512 + j < 1048576" by simp
  then show "main_clks ! a ! j = Linmat_at (a * 512 + j)"
    using assms \<open>j < 512\<close>
    by (simp add: main_clks_eq nclks_def poldeg_def clksz_def length_Linmat Linmat_nth add.commute mult.commute)
qed

lemma Linmat_at_4: "Linmat_at 4 = 0"
  by (simp add: Linmat_at_def)

lemma Linmat_at_2: "Linmat_at 2 = 1"
  by (simp add: Linmat_at_def)

lemma sint_Linmat_at: "sint (Linmat_at i) = 0 \<or> sint (Linmat_at i) = 1"
  using Linmat_at_binary [of i] by auto

lemma product_binary:
  "0 \<le> sint (Linmat_at i) * sint (Linmat_at k) \<and> sint (Linmat_at i) * sint (Linmat_at k) \<le> 1"
  using sint_Linmat_at [of i] sint_Linmat_at [of k] by auto

lemma exact_inner_product_rows:
  assumes "a < 2048" and "b < 2048"
  shows "exact_inner_product (main_clks ! a) (main_clks ! b) =
     (\<Sum>j<512. sint (Linmat_at (a * 512 + j)) * sint (Linmat_at (b * 512 + j)))"
  using assms by (simp add: exact_inner_product_def main_clks_row)

lemma exact_inner_product_rows_bounds:
  assumes "a < 2048" and "b < 2048"
  shows "0 \<le> exact_inner_product (main_clks ! a) (main_clks ! b)"
    and "exact_inner_product (main_clks ! a) (main_clks ! b) \<le> 512"
proof -
  let ?f = "\<lambda>j. sint (Linmat_at (a * 512 + j)) * sint (Linmat_at (b * 512 + j))"
  have "0 \<le> sum ?f {..<512}"
    by (rule sum_nonneg) (simp add: product_binary)
  then show "0 \<le> exact_inner_product (main_clks ! a) (main_clks ! b)"
    by (simp only: exact_inner_product_rows [OF assms])
  have "sum ?f {..<512} \<le> of_nat (card {..<512::nat}) * 1"
    by (rule sum_bounded_above) (simp add: product_binary)
  then show "exact_inner_product (main_clks ! a) (main_clks ! b) \<le> 512"
    by (simp add: exact_inner_product_rows [OF assms])
qed


lemma sint_small: "0 \<le> e \<Longrightarrow> e \<le> 512 \<Longrightarrow> sint (word_of_int e :: int64) = e"
  by (simp add: signed_of_int signed_take_bit_int_eq_self)

lemma inner_product_rows:
  assumes "a < 2048" and "b < 2048"
  shows "inner_product (main_clks ! a) (main_clks ! b) 0 =
     Inr (word_of_int (exact_inner_product (main_clks ! a) (main_clks ! b)))"
  using inner_product_exact [of "main_clks ! a" "main_clks ! b" 0] assms
  by (simp add: main_clks_row)

text \<open>
  C9: every element of the left matrix that \<^verbatim>\<open>main\<close> builds is 0 or 1. Hence the
  inner product of any two of its 2048 rows of 512 elements lies between 0 and 512,
  \<^verbatim>\<open>std::inner_product\<close> computes it without overflow, and twice its value is below the
  plaintext modulus 40961: the magnitude condition of the multiplication property holds
  in the driver's scenario.
\<close>

theorem driver_matrix_within_magnitude:
  "(\<forall>i<length Linmat. Linmat ! i = 0 \<or> Linmat ! i = 1) \<and>
   length Linmat = 2048 * 512 \<and> length main_clks = 2048 \<and>
   (\<forall>a<nclks. \<forall>b<nclks.
      0 \<le> exact_inner_product (main_clks ! a) (main_clks ! b) \<and>
      exact_inner_product (main_clks ! a) (main_clks ! b) \<le> 512 \<and>
      2 * exact_inner_product (main_clks ! a) (main_clks ! b) < int plain_mod \<and>
      (\<exists>w. inner_product (main_clks ! a) (main_clks ! b) 0 = Inr w \<and>
           sint w = exact_inner_product (main_clks ! a) (main_clks ! b)))"
proof (intro conjI allI impI)
  fix i
  assume "i < length Linmat"
  then show "Linmat ! i = 0 \<or> Linmat ! i = 1"
    using Linmat_at_binary [of i] by (simp add: length_Linmat Linmat_nth)
next
  show "length Linmat = 2048 * 512"
    by (simp add: length_Linmat)
next
  show "length main_clks = 2048"
    by (rule length_main_clks)
next
  fix a b
  assume "a < nclks" and "b < nclks"
  then have a: "a < 2048" and b: "b < 2048"
    by (simp_all add: nclks_def poldeg_def)
  let ?e = "exact_inner_product (main_clks ! a) (main_clks ! b)"
  from exact_inner_product_rows_bounds [OF a b] show lo: "0 \<le> ?e" and hi: "?e \<le> 512"
    by simp_all
  from hi show "2 * ?e < int plain_mod"
    by (simp add: plain_mod_def)
  from inner_product_rows [OF a b] sint_small [OF lo hi]
  show "\<exists>w. inner_product (main_clks ! a) (main_clks ! b) 0 = Inr w \<and> sint w = ?e"
    by simp
qed

theorem driver_matrix_within_magnitude_witness:
  "4 < length Linmat \<and> Linmat ! 4 = 0 \<and> 0 < nclks \<and> 1 < nclks \<and>
   0 \<le> exact_inner_product (main_clks ! 0) (main_clks ! 1) \<and>
   exact_inner_product (main_clks ! 0) (main_clks ! 1) \<le> 512"
proof -
  have n: "0 < nclks" "1 < nclks"
    by (simp_all add: nclks_def poldeg_def)
  have l: "4 < length Linmat"
    by (simp add: length_Linmat)
  have v: "Linmat ! 4 = 0"
    by (simp add: Linmat_nth Linmat_at_4)
  from driver_matrix_within_magnitude n l v show ?thesis
    by simp
qed

text \<open>
  C3, as the driver has it. The reference computation reads the left buffer row by row
  (row \<open>i\<close> is \<^verbatim>\<open>Linmat[i*clksz .. (i+1)*clksz)\<close>). The first 1024 elements of the
  buffer passed to \<^verbatim>\<open>seclink_encrypt_right\<close> hold the two columns of the right matrix
  one after the other: read column by column as a 512 by 2 matrix, column 0 is row 0 of
  the left matrix and column 1 is row 1, as the comment in \<^verbatim>\<open>main\<close> says.
\<close>

theorem right_buffer_holds_columns:
  "(\<forall>i<nclks. \<forall>j<clksz. row_major Linmat nclks clksz i j = main_clks ! i ! j) \<and>
   (\<forall>j<clksz. \<forall>c<2.
      column_major (take (clksz * 2) Rinmat) clksz 2 j c = row_major Linmat nclks clksz c j)"
proof (intro conjI allI impI)
  fix i j
  assume "i < nclks" and "j < clksz"
  then have i: "i < 2048" and j: "j < 512"
    by (simp_all add: nclks_def poldeg_def clksz_def)
  then have "i * 512 + j < 1048576" by simp
  with main_clks_row(2) [OF i j] show "row_major Linmat nclks clksz i j = main_clks ! i ! j"
    by (simp add: row_major_def clksz_def Linmat_nth)
next
  fix j c :: nat
  assume "j < clksz" and "c < 2"
  then have "c * 512 + j < 1024"
    by (simp add: clksz_def)
  then show "column_major (take (clksz * 2) Rinmat) clksz 2 j c = row_major Linmat nclks clksz c j"
    by (simp add: column_major_def row_major_def clksz_def Rinmat_def)
qed

theorem right_buffer_holds_columns_witness:
  "3 < clksz \<and> (1 :: nat) < 2 \<and> 1 < nclks \<and>
   column_major (take (clksz * 2) Rinmat) clksz 2 3 1 = main_clks ! 1 ! 3"
proof -
  have "3 < clksz" and "1 < nclks"
    by (simp_all add: clksz_def nclks_def poldeg_def)
  with right_buffer_holds_columns show ?thesis
    by simp
qed

text \<open>
  Read row by row as a 512 by 2 matrix, the same 1024 elements give another matrix:
  its element \<open>(2, 0)\<close> is \<^verbatim>\<open>Linmat[4]\<close>, which is 0, while element 2 of row 0 of the
  left matrix is \<^verbatim>\<open>Linmat[2]\<close>, which is 1.
\<close>

theorem row_major_right_buffer_differs:
  "row_major (take (clksz * 2) Rinmat) clksz 2 2 0 = 0 \<and> main_clks ! 0 ! 2 = 1 \<and>
   row_major (take (clksz * 2) Rinmat) clksz 2 2 0 \<noteq> main_clks ! 0 ! 2"
proof -
  have "row_major (take (clksz * 2) Rinmat) clksz 2 2 0 = 0"
    by (simp add: row_major_def clksz_def Rinmat_def Linmat_nth Linmat_at_4)
  moreover have "main_clks ! 0 ! 2 = Linmat_at (0 * 512 + 2)"
    by (rule main_clks_row(2)) simp_all
  then have "main_clks ! 0 ! 2 = 1"
    by (simp only: mult_zero_left add_0 Linmat_at_2)
  ultimately show ?thesis by simp
qed

section \<open>Properties of the linkage engine\<close>

lemma power_of_two_half:
  assumes "power_of_two q" and "1 < q"
  shows "even q" and "power_of_two (q div 2)"
proof -
  from assms have *: "\<not> (q = 0 \<or> odd q) \<and> power_of_two (q div 2)"
    by (subst (asm) power_of_two.simps) (simp split: if_splits)
  then show "even q" by simp
  from * show "power_of_two (q div 2)" by simp
qed

lemma power_of_two_pos: "power_of_two q \<Longrightarrow> 0 < q"
  by (subst (asm) power_of_two.simps) (simp split: if_splits)

lemma length_ct_add: "length (ct_add ctx a b) = min (length a) (length b)"
  by (simp add: ct_add_def)

lemma length_ct_rotate: "length (ct_rotate s a) = length a"
  by (simp add: ct_rotate_def)

lemma nth_ct_add_rotate:
  assumes "i < length v"
  shows "ct_add ctx v (ct_rotate h v) ! i =
     (v ! i + v ! ((i + h) mod length v)) mod int (plaintext_modulus ctx)"
  using assms by (simp add: ct_add_def ct_rotate_def nth_rotate add.commute)

lemma length_ct_add_rotate: "length (ct_add ctx v (ct_rotate h v)) = length v"
  by (simp add: length_ct_add length_ct_rotate)

lemma sum_two_halves:
  fixes f :: "nat \<Rightarrow> int"
  shows "(\<Sum>t = 0..<h. f t + f (t + h)) = (\<Sum>t = 0..<2 * h. f t)"
proof -
  have "(\<Sum>t = 0..<2 * h. f t) = (\<Sum>t = 0..<h. f t) + (\<Sum>t = h..<2 * h. f t)"
    by (rule sum.atLeastLessThan_concat [symmetric]) simp_all
  also have "(\<Sum>t = h..<2 * h. f t) = (\<Sum>t = 0..<h. f (t + h))"
    using sum.shift_bounds_nat_ivl [of f 0 h h] by (simp add: mult_2)
  finally show ?thesis by (simp add: sum.distrib)
qed

lemma rotate_and_add_slots:
  assumes "length v = n" and "power_of_two q" and "q dvd n" and "0 < n"
    and "\<forall>i<n. v ! ((i + q) mod n) = v ! i"
    and "i < n"
  shows "length (rotate_and_add ctx q v) = n \<and>
     rotate_and_add ctx q v ! i mod int (plaintext_modulus ctx) =
       (\<Sum>t = 0..<q. v ! ((i + t) mod n)) mod int (plaintext_modulus ctx)"
  using assms
proof (induction ctx q v arbitrary: i rule: rotate_and_add.induct)
  case (1 ctx spread ct)
  let ?p = "int (plaintext_modulus ctx)"
  show ?case
  proof (cases "spread \<le> 1")
    case True
    with power_of_two_pos [OF "1.prems"(2)] have "spread = 1" by simp
    with "1.prems" show ?thesis
      by (subst (1 2) rotate_and_add.simps) simp
  next
    case False
    then have big: "1 < spread" by simp
    let ?h = "spread div 2"
    let ?u = "ct_add ctx ct (ct_rotate ?h ct)"
    from power_of_two_half [OF "1.prems"(2) big]
    have ev: "even spread" and ph: "power_of_two ?h" by simp_all
    then have sp: "2 * ?h = spread" by simp
    have lu: "length ?u = n"
      using "1.prems"(1) by (simp add: length_ct_add_rotate)
    have hd: "?h dvd n"
      using "1.prems"(3) dvd_mult_right [of 2 ?h n] by (simp only: sp)
    have nth_u: "?u ! j = (ct ! j + ct ! ((j + ?h) mod n)) mod ?p" if "j < n" for j
      using nth_ct_add_rotate [of j ct ctx ?h] that "1.prems"(1) by simp
    have per: "\<forall>j<n. ?u ! ((j + ?h) mod n) = ?u ! j"
    proof (intro allI impI)
      fix j assume j: "j < n"
      then have j': "(j + ?h) mod n < n" using "1.prems"(4) by simp
      have "((j + ?h) mod n + ?h) mod n = (j + 2 * ?h) mod n"
        by (simp add: mod_add_left_eq add.assoc mult_2)
      then have "((j + ?h) mod n + ?h) mod n = (j + spread) mod n"
        by (simp only: sp)
      with "1.prems"(5) j have "ct ! (((j + ?h) mod n + ?h) mod n) = ct ! j"
        by simp
      with nth_u [OF j] nth_u [OF j'] show "?u ! ((j + ?h) mod n) = ?u ! j"
        by (simp add: add.commute)
    qed
    from "1.IH" [OF False lu ph hd "1.prems"(4) per "1.prems"(6)]
    have len: "length (rotate_and_add ctx ?h ?u) = n"
      and val: "rotate_and_add ctx ?h ?u ! i mod ?p = (\<Sum>t = 0..<?h. ?u ! ((i + t) mod n)) mod ?p"
      by simp_all
    have "(\<Sum>t = 0..<?h. ?u ! ((i + t) mod n)) mod ?p =
          (\<Sum>t = 0..<?h. (ct ! ((i + t) mod n) + ct ! ((i + (t + ?h)) mod n)) mod ?p) mod ?p"
    proof -
      have "?u ! ((i + t) mod n) = (ct ! ((i + t) mod n) + ct ! ((i + (t + ?h)) mod n)) mod ?p" for t
      proof -
        have "(i + t) mod n < n" using "1.prems"(4) by simp
        from nth_u [OF this] show ?thesis
          by (simp add: mod_add_left_eq add.assoc)
      qed
      then show ?thesis by simp
    qed
    also have "\<dots> = (\<Sum>t = 0..<?h. ct ! ((i + t) mod n) + ct ! ((i + (t + ?h)) mod n)) mod ?p"
      by (rule mod_sum_eq)
    also have "(\<Sum>t = 0..<?h. ct ! ((i + t) mod n) + ct ! ((i + (t + ?h)) mod n)) =
               (\<Sum>t = 0..<2 * ?h. ct ! ((i + t) mod n))"
      by (rule sum_two_halves [of "\<lambda>t. ct ! ((i + t) mod n)" ?h])
    finally have "(\<Sum>t = 0..<?h. ?u ! ((i + t) mod n)) mod ?p =
        (\<Sum>t = 0..<spread. ct ! ((i + t) mod n)) mod ?p"
      by (simp only: sp)
    with len val False show ?thesis
      by (subst (1 2) rotate_and_add.simps) simp
  qed
qed


lemma length_encode:
  "length xs \<le> ring_dimension ctx \<Longrightarrow> length (encode ctx xs) = ring_dimension ctx"
  by (simp add: encode_def)

lemma nth_encode:
  "t < length xs \<Longrightarrow> encode ctx xs ! t = xs ! t mod int (plaintext_modulus ctx)"
  "length xs \<le> t \<Longrightarrow> t < ring_dimension ctx \<Longrightarrow> encode ctx xs ! t = 0"
  by (simp_all add: encode_def nth_append)

lemma length_ct_multiply: "length (ct_multiply ctx a b) = min (length a) (length b)"
  by (simp add: ct_multiply_def)

lemma nth_ct_multiply:
  "t < length a \<Longrightarrow> t < length b \<Longrightarrow>
   ct_multiply ctx a b ! t = a ! t * b ! t mod int (plaintext_modulus ctx)"
  by (simp add: ct_multiply_def)

lemma slots_of_product:
  assumes "length xs = m" and "length ys = m" and "m \<le> ring_dimension ctx"
  shows "length (ct_multiply ctx (encode ctx xs) (encode ctx ys)) = ring_dimension ctx"
    and "(\<Sum>t = 0..<ring_dimension ctx. ct_multiply ctx (encode ctx xs) (encode ctx ys) ! t)
           mod int (plaintext_modulus ctx) =
         (\<Sum>j<m. xs ! j * ys ! j) mod int (plaintext_modulus ctx)"
proof -
  let ?n = "ring_dimension ctx" and ?p = "int (plaintext_modulus ctx)"
  let ?v = "ct_multiply ctx (encode ctx xs) (encode ctx ys)"
  from assms show len: "length ?v = ?n"
    by (simp add: length_ct_multiply length_encode)
  have low: "?v ! t = (xs ! t * ys ! t) mod ?p" if "t < m" for t
    using that assms
    by (simp add: nth_ct_multiply length_encode nth_encode mod_mult_eq)
  have high: "?v ! t = 0" if "m \<le> t" and "t < ?n" for t
    using that assms
    by (simp add: nth_ct_multiply length_encode nth_encode)
  have "(\<Sum>t = 0..<?n. ?v ! t) = (\<Sum>t = 0..<m. ?v ! t) + (\<Sum>t = m..<?n. ?v ! t)"
    using assms(3) by (simp add: sum.atLeastLessThan_concat)
  also have "(\<Sum>t = m..<?n. ?v ! t) = 0"
    by (rule sum.neutral) (simp add: high)
  also have "(\<Sum>t = 0..<m. ?v ! t) = (\<Sum>t = 0..<m. (xs ! t * ys ! t) mod ?p)"
    by (rule sum.cong) (simp_all add: low)
  finally have "(\<Sum>t = 0..<?n. ?v ! t) mod ?p = (\<Sum>t = 0..<m. (xs ! t * ys ! t) mod ?p) mod ?p"
    by simp
  also have "\<dots> = (\<Sum>t = 0..<m. xs ! t * ys ! t) mod ?p"
    by (rule mod_sum_eq)
  finally show "(\<Sum>t = 0..<?n. ?v ! t) mod ?p = (\<Sum>j<m. xs ! j * ys ! j) mod ?p"
    by (simp add: atLeast0LessThan)
qed

lemma reduced_slot:
  assumes "length v = ring_dimension ctx" and "power_of_two (ring_dimension ctx)"
  shows "slot (rotate_and_add ctx (ring_dimension ctx) v) 0 mod int (plaintext_modulus ctx) =
     (\<Sum>t = 0..<ring_dimension ctx. v ! t) mod int (plaintext_modulus ctx)"
proof -
  let ?n = "ring_dimension ctx"
  have pos: "0 < ?n" by (rule power_of_two_pos [OF assms(2)])
  have per: "\<forall>i<?n. v ! ((i + ?n) mod ?n) = v ! i" by simp
  from rotate_and_add_slots [OF assms(1) assms(2) dvd_refl pos per pos, of ctx]
  have len: "length (rotate_and_add ctx ?n v) = ?n"
    and val: "rotate_and_add ctx ?n v ! 0 mod int (plaintext_modulus ctx) =
       (\<Sum>t = 0..<?n. v ! ((0 + t) mod ?n)) mod int (plaintext_modulus ctx)"
    by simp_all
  have "(\<Sum>t = 0..<?n. v ! ((0 + t) mod ?n)) = (\<Sum>t = 0..<?n. v ! t)"
    by (rule sum.cong) simp_all
  with len val pos show ?thesis
    by (simp add: slot_def)
qed

lemma centered_mod:
  "x mod int (plaintext_modulus ctx) = y mod int (plaintext_modulus ctx) \<Longrightarrow>
   centered ctx x = centered ctx y"
  by (simp add: centered_def)

lemma centered_small:
  assumes "2 * \<bar>x\<bar> < int (plaintext_modulus ctx)"
  shows "centered ctx x = x"
proof (cases "0 \<le> x")
  case True
  with assms have "x mod int (plaintext_modulus ctx) = x" by simp
  with True assms show ?thesis by (simp add: centered_def Let_def)
next
  case False
  let ?p = "int (plaintext_modulus ctx)"
  from False assms have "0 \<le> x + ?p" and "x + ?p < ?p" by simp_all
  then have "(x + ?p) mod ?p = x + ?p" by (rule mod_pos_pos_trivial)
  then have "x mod ?p = x + ?p" by simp
  with False assms show ?thesis by (simp add: centered_def Let_def)
qed

lemma decrypted_entry:
  assumes "length xs = m" and "length ys = m" and "m \<le> ring_dimension ctx"
    and "power_of_two (ring_dimension ctx)"
    and "2 * \<bar>\<Sum>j<m. xs ! j * ys ! j\<bar> < int (plaintext_modulus ctx)"
  shows "centered ctx (slot (rotate_and_add ctx (ring_dimension ctx)
            (ct_multiply ctx (encode ctx xs) (encode ctx ys))) 0) =
         (\<Sum>j<m. xs ! j * ys ! j)"
proof -
  let ?v = "ct_multiply ctx (encode ctx xs) (encode ctx ys)"
  from slots_of_product [OF assms(1-3)] reduced_slot [OF _ assms(4), of ?v]
  have "slot (rotate_and_add ctx (ring_dimension ctx) ?v) 0 mod int (plaintext_modulus ctx) =
        (\<Sum>j<m. xs ! j * ys ! j) mod int (plaintext_modulus ctx)"
    by simp
  then have "centered ctx (slot (rotate_and_add ctx (ring_dimension ctx) ?v) 0) =
        centered ctx (\<Sum>j<m. xs ! j * ys ! j)"
    by (rule centered_mod)
  with centered_small [OF assms(5)] show ?thesis by simp
qed

lemma linkage_exact:
  assumes "valid_context ctx" and "cols \<le> ring_dimension ctx"
    and "rows * cols \<le> length lmat" and "cols * k \<le> length rmat"
    and "\<forall>i<rows. \<forall>c<k.
           2 * \<bar>matrix_entry lmat rows cols rmat k i c\<bar> < int (plaintext_modulus ctx)"
  shows "linkage ctx lmat rows cols rmat k = Inr (matrix_product lmat rows cols rmat k)"
proof -
  let ?row = "\<lambda>i. map (\<lambda>j. row_major lmat rows cols i j) [0..<cols]"
  let ?col = "\<lambda>c. map (\<lambda>j. column_major rmat cols k j c) [0..<cols]"
  let ?cell = "\<lambda>i c. rotate_and_add ctx (ring_dimension ctx)
                  (ct_multiply ctx (encode ctx (?row i)) (encode ctx (?col c)))"
  from assms(1) have p2: "power_of_two (ring_dimension ctx)"
    by (simp add: valid_context_def)
  have entry: "centered ctx (slot (?cell i c) 0) = matrix_entry lmat rows cols rmat k i c"
    if "i < rows" and "c < k" for i c
  proof -
    have sum: "(\<Sum>j<cols. ?row i ! j * ?col c ! j) = matrix_entry lmat rows cols rmat k i c"
      by (simp add: matrix_entry_def)
    have "2 * \<bar>\<Sum>j<cols. ?row i ! j * ?col c ! j\<bar> < int (plaintext_modulus ctx)"
      using assms(5) that by (simp only: sum)
    from decrypted_entry [of "?row i" cols "?col c" ctx, OF _ _ assms(2) p2 this] sum
    show ?thesis by simp
  qed
  have "linkage ctx lmat rows cols rmat k =
      Inr (concat (map (\<lambda>i. map (\<lambda>c. centered ctx (slot (?cell i c) 0)) [0..<k]) [0..<rows]))"
    using assms(2-4)
    by (simp add: linkage_def encrypt_left_def encrypt_right_def multiply_def decrypt_def
        map_concat o_def)
  also have "concat (map (\<lambda>i. map (\<lambda>c. centered ctx (slot (?cell i c) 0)) [0..<k]) [0..<rows]) =
      matrix_product lmat rows cols rmat k"
    unfolding matrix_product_def
    by (intro arg_cong [where f = concat] map_cong refl) (simp add: entry)
  finally show ?thesis .
qed

lemma concat_grid_length:
  "length (concat (map (\<lambda>i. map (f i) [0..<k]) [0..<r])) = r * k"
  by (induction r) simp_all

lemma concat_grid_nth:
  assumes "i < r" and "c < k"
  shows "concat (map (\<lambda>i. map (f i) [0..<k]) [0..<r]) ! (i * k + c) = f i c"
  using assms
proof (induction r)
  case 0
  then show ?case by simp
next
  case (Suc r)
  show ?case
  proof (cases "i < r")
    case True
    then have "i * k + c < r * k"
      using Suc.prems(2) by (metis add.commute mult_Suc less_le_trans add_less_cancel_left mult_le_mono1 Suc_leI)
    with Suc.IH [OF True Suc.prems(2)] show ?thesis
      by (simp add: nth_append concat_grid_length)
  next
    case False
    with Suc.prems have "i = r" by simp
    with Suc.prems(2) show ?thesis
      by (simp add: nth_append concat_grid_length)
  qed
qed

lemma row_of_buffer:
  assumes "d + cols \<le> length m"
  shows "map (\<lambda>j. m ! (d + j)) [0..<cols] = take cols (drop d m)"
  using assms by (intro nth_equalityI) simp_all

lemma concat_rows:
  assumes "rows * cols \<le> length m"
  shows "concat (map (\<lambda>i. map (\<lambda>j. f (m ! (i * cols + j))) [0..<cols]) [0..<rows]) =
     map f (take (rows * cols) m)"
  using assms
proof (induction rows)
  case 0
  then show ?case by simp
next
  case (Suc r)
  then have le: "r * cols \<le> length m" and fit: "r * cols + cols \<le> length m"
    by simp_all
  have "map (\<lambda>j. f (m ! (r * cols + j))) [0..<cols] = map f (map (\<lambda>j. m ! (r * cols + j)) [0..<cols])"
    by simp
  also have "\<dots> = map f (take cols (drop (r * cols) m))"
    by (simp only: row_of_buffer [OF fit])
  finally have last: "map (\<lambda>j. f (m ! (r * cols + j))) [0..<cols] =
      map f (take cols (drop (r * cols) m))" .
  have "Suc r * cols = r * cols + cols"
    by simp
  then have "take (Suc r * cols) m = take (r * cols) m @ take cols (drop (r * cols) m)"
    by (simp only: take_add)
  with Suc.IH [OF le] last show ?case
    by simp
qed

lemma matrix_product_nth:
  "length (matrix_product lmat rows cols rmat k) = rows * k"
  "i < rows \<Longrightarrow> c < k \<Longrightarrow>
   matrix_product lmat rows cols rmat k ! (i * k + c) = matrix_entry lmat rows cols rmat k i c"
  by (simp_all add: matrix_product_def concat_grid_length concat_grid_nth)

text \<open>
  C1: in a context whose ring dimension is a power of two, for a left matrix of
  \<open>rows\<close> by \<open>cols\<close> elements with \<open>cols\<close> at most the ring dimension and a right
  matrix of \<open>cols\<close> by \<open>k\<close> elements, if every exact inner product of a row with a
  column is below half the plaintext modulus in absolute value, then encrypting both,
  multiplying and decrypting succeeds and gives exactly the integer matrix product,
  element for element, equal to the plaintext reference \<open>matrix_product\<close>. In the
  ideal scheme the bound on the entries themselves is not needed.
\<close>

theorem encrypted_product_exact:
  assumes "valid_context ctx" and "cols \<le> ring_dimension ctx"
    and "length lmat = rows * cols" and "length rmat = cols * k"
    and "\<forall>i<rows. \<forall>c<k.
           2 * \<bar>matrix_entry lmat rows cols rmat k i c\<bar> < int (plaintext_modulus ctx)"
  shows "\<exists>out. linkage ctx lmat rows cols rmat k = Inr out \<and>
           out = matrix_product lmat rows cols rmat k \<and> length out = rows * k \<and>
           (\<forall>i<rows. \<forall>c<k.
              out ! (i * k + c) =
                (\<Sum>j<cols. row_major lmat rows cols i j * column_major rmat cols k j c))"
proof -
  from assms(3,4) have "rows * cols \<le> length lmat" and "cols * k \<le> length rmat"
    by simp_all
  from linkage_exact [OF assms(1,2) this assms(5)] show ?thesis
    by (simp add: matrix_product_nth matrix_entry_def)
qed

lemma valid_small: "valid_context \<lparr>ring_dimension = 4, plaintext_modulus = 17\<rparr>"
  by (simp add: valid_context_def power_of_two.simps)

lemma entries_small:
  "\<forall>i<2. \<forall>c<2. 2 * \<bar>matrix_entry [1, 2, 3, 4] 2 2 [1, 0, 1, 1] 2 i c\<bar> < int 17"
  by (simp add: matrix_entry_def row_major_def column_major_def All_less_Suc lessThan_Suc numeral_2_eq_2)

lemma product_small: "matrix_product [1, 2, 3, 4] 2 2 [1, 0, 1, 1] 2 = [1, 3, 3, 7]"
  by (simp add: matrix_product_def matrix_entry_def row_major_def column_major_def lessThan_Suc numeral_2_eq_2)

theorem encrypted_product_exact_witness:
  "valid_context \<lparr>ring_dimension = 4, plaintext_modulus = 17\<rparr> \<and>
   linkage \<lparr>ring_dimension = 4, plaintext_modulus = 17\<rparr> [1, 2, 3, 4] 2 2 [1, 0, 1, 1] 2
     = Inr [1, 3, 3, 7]"
proof -
  let ?ctx = "\<lparr>ring_dimension = 4, plaintext_modulus = 17\<rparr>"
  have "(2::nat) \<le> ring_dimension ?ctx" by simp
  moreover have "length [1, 2, 3, 4 :: int] = 2 * 2" and "length [1, 0, 1, 1 :: int] = 2 * 2"
    by simp_all
  moreover have "\<forall>i<2. \<forall>c<2. 2 * \<bar>matrix_entry [1, 2, 3, 4] 2 2 [1, 0, 1, 1] 2 i c\<bar>
      < int (plaintext_modulus ?ctx)"
    using entries_small by simp
  ultimately have "\<exists>out. linkage ?ctx [1, 2, 3, 4] 2 2 [1, 0, 1, 1] 2 = Inr out \<and>
      out = matrix_product [1, 2, 3, 4] 2 2 [1, 0, 1, 1] 2"
    using encrypted_product_exact [OF valid_small, of 2 "[1, 2, 3, 4]" 2 "[1, 0, 1, 1]" 2]
    by blast
  with valid_small product_small show ?thesis
    by simp
qed

lemma slot_encode:
  "j < length xs \<Longrightarrow> slot (encode ctx xs) j = xs ! j mod int (plaintext_modulus ctx)"
  by (simp add: slot_def encode_def nth_append)

lemma round_trip_residues:
  assumes "cols \<le> ring_dimension ctx" and "length m = rows * cols"
  shows "round_trip ctx m rows cols = Inr (map (\<lambda>e. e mod int (plaintext_modulus ctx)) m)"
proof -
  let ?p = "int (plaintext_modulus ctx)"
  have "round_trip ctx m rows cols =
      Inr (concat (map (\<lambda>i. map (\<lambda>j. slot (encode ctx
              (map (\<lambda>j. row_major m rows cols i j) [0..<cols])) j mod ?p) [0..<cols]) [0..<rows]))"
    using assms by (simp add: round_trip_def encrypt_left_def decrypt_def o_def)
  also have "concat (map (\<lambda>i. map (\<lambda>j. slot (encode ctx
              (map (\<lambda>j. row_major m rows cols i j) [0..<cols])) j mod ?p) [0..<cols]) [0..<rows]) =
      concat (map (\<lambda>i. map (\<lambda>j. m ! (i * cols + j) mod ?p) [0..<cols]) [0..<rows])"
    by (intro arg_cong [where f = concat] map_cong refl)
      (simp add: slot_encode row_major_def)
  also have "\<dots> = map (\<lambda>e. e mod ?p) (take (rows * cols) m)"
    using assms(2) by (intro concat_rows) simp
  finally show ?thesis
    using assms(2) by simp
qed

text \<open>
  C5: for a matrix of \<open>rows\<close> by \<open>cols\<close> elements, \<open>cols\<close> at most the ring
  dimension, whose elements all lie in the range from 0 to the plaintext modulus
  (excluded), the round trip through \<open>encrypt_left\<close> and \<open>decrypt\<close>, with no
  multiplication in between, succeeds and gives the matrix back exactly.
\<close>

theorem round_trip_exact:
  assumes "cols \<le> ring_dimension ctx" and "length m = rows * cols"
    and "\<forall>e \<in> set m. 0 \<le> e \<and> e < int (plaintext_modulus ctx)"
  shows "round_trip ctx m rows cols = Inr m"
proof -
  let ?p = "int (plaintext_modulus ctx)"
  have "e mod ?p = e" if "e \<in> set m" for e
    using assms(3) that by simp
  then have "map (\<lambda>e. e mod ?p) m = m"
    by (simp add: map_idI)
  with round_trip_residues [OF assms(1,2)] show ?thesis
    by simp
qed

theorem round_trip_exact_witness:
  "(3 :: nat) \<le> ring_dimension \<lparr>ring_dimension = 4, plaintext_modulus = 17\<rparr> \<and>
   length [1, 8, 0, 16, 9, 3 :: int] = 2 * 3 \<and>
   list_all (\<lambda>e. 0 \<le> e \<and> e < 17) [1, 8, 0, 16, 9, 3 :: int] \<and>
   round_trip \<lparr>ring_dimension = 4, plaintext_modulus = 17\<rparr> [1, 8, 0, 16, 9, 3] 2 3 =
     Inr [1, 8, 0, 16, 9, 3]"
proof -
  let ?ctx = "\<lparr>ring_dimension = 4, plaintext_modulus = 17\<rparr>"
  have fit: "(3::nat) \<le> ring_dimension ?ctx"
    by simp
  have len: "length [1, 8, 0, 16, 9, 3 :: int] = 2 * 3"
    by simp
  have range: "\<forall>e \<in> set [1, 8, 0, 16, 9, 3 :: int]. 0 \<le> e \<and> e < int (plaintext_modulus ?ctx)"
    by simp
  from round_trip_exact [OF fit len range] show ?thesis
    by simp
qed

lemma valid_main_ctx: "valid_context main_ctx"
  by (simp add: valid_context_def main_ctx_def poldeg_def plain_mod_def power_of_two.simps)

lemma main_matrix_entry:
  assumes "i < 2048" and "c < 2"
  shows "matrix_entry (map sint Linmat) nclks clksz (map sint Rinmat) 2 i c =
     exact_inner_product (main_clks ! i) (main_clks ! c)"
proof -
  from assms(2) have c: "c < 2048" by simp
  have "row_major (map sint Linmat) nclks clksz i j * column_major (map sint Rinmat) clksz 2 j c =
        sint (Linmat_at (i * 512 + j)) * sint (Linmat_at (c * 512 + j))" if "j < 512" for j
  proof -
    from assms that have "i * 512 + j < 1048576" and "c * 512 + j < 1048576"
      by simp_all
    then show ?thesis
      by (simp add: row_major_def column_major_def clksz_def Rinmat_def length_Linmat Linmat_nth)
  qed
  then have "matrix_entry (map sint Linmat) nclks clksz (map sint Rinmat) 2 i c =
      (\<Sum>j<512. sint (Linmat_at (i * 512 + j)) * sint (Linmat_at (c * 512 + j)))"
    by (simp add: matrix_entry_def clksz_def)
  with exact_inner_product_rows [OF assms(1) c] show ?thesis
    by simp
qed

lemma main_linkage:
  "linkage main_ctx (map sint Linmat) nclks clksz (map sint Rinmat) 2 =
     Inr (matrix_product (map sint Linmat) nclks clksz (map sint Rinmat) 2)"
proof (rule linkage_exact [OF valid_main_ctx])
  show "clksz \<le> ring_dimension main_ctx"
    by (simp add: clksz_def main_ctx_def poldeg_def)
  show "nclks * clksz \<le> length (map sint Linmat)"
    by (simp add: length_Linmat nclks_def clksz_def poldeg_def)
  show "clksz * 2 \<le> length (map sint Rinmat)"
    by (simp add: Rinmat_def length_Linmat clksz_def)
  show "\<forall>i<nclks. \<forall>c<2.
      2 * \<bar>matrix_entry (map sint Linmat) nclks clksz (map sint Rinmat) 2 i c\<bar>
        < int (plaintext_modulus main_ctx)"
  proof (intro allI impI)
    fix i c :: nat
    assume "i < nclks" and c: "c < 2"
    then have i: "i < 2048" by (simp add: nclks_def poldeg_def)
    from c have "c < 2048" by simp
    from exact_inner_product_rows_bounds [OF i this] main_matrix_entry [OF i c]
    show "2 * \<bar>matrix_entry (map sint Linmat) nclks clksz (map sint Rinmat) 2 i c\<bar>
        < int (plaintext_modulus main_ctx)"
      by (simp add: main_ctx_def plain_mod_def)
  qed
qed

lemma main_output_eq:
  "main_output =
     Inr (concat (map (\<lambda>i. [word_of_int (exact_inner_product (main_clks ! i) (main_clks ! 0)),
                              word_of_int (exact_inner_product (main_clks ! i) (main_clks ! 1))])
            [0..<2048]))"
proof -
  have two: "[0..<2] = [0, 1]"
    by (simp add: upt_conv_Cons)
  have "map word_of_int (matrix_product (map sint Linmat) nclks clksz (map sint Rinmat) 2) =
      concat (map (\<lambda>i. [word_of_int (matrix_entry (map sint Linmat) nclks clksz (map sint Rinmat) 2 i 0),
                         word_of_int (matrix_entry (map sint Linmat) nclks clksz (map sint Rinmat) 2 i 1) :: int64])
               [0..<2048])"
    by (simp add: matrix_product_def map_concat o_def two nclks_def poldeg_def)
  also have "\<dots> = concat (map (\<lambda>i. [word_of_int (exact_inner_product (main_clks ! i) (main_clks ! 0)),
                              word_of_int (exact_inner_product (main_clks ! i) (main_clks ! 1))])
            [0..<2048])"
    by (intro arg_cong [where f = concat] map_cong refl) (simp add: main_matrix_entry)
  finally show ?thesis
    by (simp add: main_output_def main_linkage)
qed

lemma main_expected_eq:
  "main_expected =
     Inr (concat (map (\<lambda>i. [word_of_int (exact_inner_product (main_clks ! i) (main_clks ! 0)),
                              word_of_int (exact_inner_product (main_clks ! i) (main_clks ! 1))])
            [0..<2048]))"
proof -
  have len: "2 \<le> length main_clks"
    by (simp add: length_main_clks)
  have "\<forall>clk \<in> set main_clks. length clk = 512"
    by (auto simp add: in_set_conv_nth length_main_clks main_clks_row(1))
  from mat_vec_prod_equal_lengths [OF len this]
  have "main_expected =
      Inr (concat (map (\<lambda>clk. [word_of_int (exact_inner_product clk (main_clks ! 0)),
                                 word_of_int (exact_inner_product clk (main_clks ! 1))])
             (map (\<lambda>i. main_clks ! i) [0..<length main_clks])))"
    by (simp only: main_expected_def map_nth)
  then show ?thesis
    by (simp add: length_main_clks o_def)
qed

text \<open>
  C2: in the scenario of \<^verbatim>\<open>main\<close> (ring dimension 4096, plaintext modulus 40961, the
  2048 by 512 binary left matrix, and the right matrix of 512 by 2 whose columns are
  the first two rows of the left one), the decrypted output is the vector that the
  reference \<^verbatim>\<open>mat_vec_prod\<close> computes: 2048 by 2 elements, the element at
  \<open>2 * i + c\<close> being the exact inner product of row \<open>i\<close> with row \<open>c\<close>.
\<close>

theorem driver_scenario_matches_reference:
  "\<exists>out. main_output = Inr out \<and> main_expected = Inr out \<and> length out = 2048 * 2 \<and>
     (\<forall>i<2048. \<forall>c<2.
        sint (out ! (2 * i + c)) = exact_inner_product (main_clks ! i) (main_clks ! c))"
proof -
  let ?f = "\<lambda>i. word_of_int (exact_inner_product (main_clks ! i) (main_clks ! 0)) :: int64"
  let ?g = "\<lambda>i. word_of_int (exact_inner_product (main_clks ! i) (main_clks ! 1)) :: int64"
  let ?out = "concat (map (\<lambda>i. [?f i, ?g i]) [0..<2048])"
  have entry: "sint (?out ! (2 * i + c)) = exact_inner_product (main_clks ! i) (main_clks ! c)"
    if i: "i < 2048" and c: "c < 2" for i c
  proof -
    from c have "c = 0 \<or> c = 1" by auto
    moreover have "?out ! (2 * i) = ?f i" and "?out ! Suc (2 * i) = ?g i"
      using nth_concat_pairs [of i "[0..<2048]" ?f ?g] i by simp_all
    moreover have "sint (?f i) = exact_inner_product (main_clks ! i) (main_clks ! 0)"
      using exact_inner_product_rows_bounds [OF i, of 0] by (simp add: sint_small)
    moreover have "sint (?g i) = exact_inner_product (main_clks ! i) (main_clks ! 1)"
      using exact_inner_product_rows_bounds [OF i, of 1] by (simp add: sint_small)
    ultimately show ?thesis by auto
  qed
  have len: "length ?out = 2048 * 2"
    by (simp add: length_concat_pairs)
  show ?thesis
  proof (intro exI conjI allI impI)
    show "main_output = Inr ?out" by (rule main_output_eq)
    show "main_expected = Inr ?out" by (rule main_expected_eq)
    show "length ?out = 2048 * 2" by (rule len)
    fix i c :: nat
    assume "i < 2048" and "c < 2"
    then show "sint (?out ! (2 * i + c)) = exact_inner_product (main_clks ! i) (main_clks ! c)"
      by (rule entry)
  qed
qed

theorem driver_scenario_matches_reference_witness:
  "(5 :: nat) < 2048 \<and> (1 :: nat) < 2 \<and>
   (\<exists>out. main_output = Inr out \<and> main_expected = Inr out \<and>
      sint (out ! (2 * 5 + 1)) = exact_inner_product (main_clks ! 5) (main_clks ! 1))"
proof -
  from driver_scenario_matches_reference obtain out where
    "main_output = Inr out" and "main_expected = Inr out"
    and entries: "\<forall>i<2048. \<forall>c<2.
        sint (out ! (2 * i + c)) = exact_inner_product (main_clks ! i) (main_clks ! c)"
    by blast
  moreover from entries [rule_format, of 5 1] have
    "sint (out ! (2 * 5 + 1)) = exact_inner_product (main_clks ! 5) (main_clks ! 1)"
    by simp
  ultimately have "\<exists>out. main_output = Inr out \<and> main_expected = Inr out \<and>
      sint (out ! (2 * 5 + 1)) = exact_inner_product (main_clks ! 5) (main_clks ! 1)"
    by blast
  then show ?thesis by simp
qed

text \<open>
  C6: \<open>multiply\<close> applied to two encrypted matrices whose inner dimensions differ
  (the row dimension of the right one is not the column dimension of the left one)
  fails with \<open>DimensionMismatch\<close>; the result is the error alone, no encrypted
  matrix comes out of the call. In particular this is so for the matrices that
  \<open>encrypt_left\<close> and \<open>encrypt_right\<close> return for shapes that do not fit.
\<close>

theorem multiply_dimension_mismatch:
  "(fst (shape right) \<noteq> snd (shape left) \<longrightarrow>
      multiply ctx left right = Inl DimensionMismatch \<and>
      (\<forall>m. multiply ctx left right \<noteq> Inr m)) \<and>
   (encrypt_left ctx lmat rows cols = Inr l \<and> encrypt_right ctx rmat inner k = Inr r \<and>
    inner \<noteq> cols \<longrightarrow>
      multiply ctx l r = Inl DimensionMismatch)"
proof (intro conjI impI)
  assume "fst (shape right) \<noteq> snd (shape left)"
  then show "multiply ctx left right = Inl DimensionMismatch"
    by (auto simp add: multiply_def)
  then show "\<forall>m. multiply ctx left right \<noteq> Inr m"
    by simp
next
  assume enc: "encrypt_left ctx lmat rows cols = Inr l \<and>
    encrypt_right ctx rmat inner k = Inr r \<and> inner \<noteq> cols"
  then have "shape l = (rows, cols)"
    by (auto simp add: encrypt_left_def split: if_splits)
  moreover from enc have "shape r = (inner, k)"
    by (auto simp add: encrypt_right_def split: if_splits)
  ultimately show "multiply ctx l r = Inl DimensionMismatch"
    using enc by (auto simp add: multiply_def)
qed

theorem multiply_dimension_mismatch_witness:
  "fst (3 :: nat, 2 :: nat) \<noteq> snd (2 :: nat, 2 :: nat) \<and>
   multiply \<lparr>ring_dimension = 4, plaintext_modulus = 17\<rparr>
     \<lparr>shape = (2, 2), packing_kind = LeftRowPacked, ciphertexts = [[1, 2, 0, 0], [3, 4, 0, 0]]\<rparr>
     \<lparr>shape = (3, 2), packing_kind = RightColumnPacked, ciphertexts = [[1, 0, 1, 0], [1, 1, 2, 0]]\<rparr>
     = Inl DimensionMismatch"
  using multiply_dimension_mismatch
    [of "\<lparr>shape = (3, 2), packing_kind = RightColumnPacked, ciphertexts = [[1, 0, 1, 0], [1, 1, 2, 0]]\<rparr>"
        "\<lparr>shape = (2, 2), packing_kind = LeftRowPacked, ciphertexts = [[1, 2, 0, 0], [3, 4, 0, 0]]\<rparr>"
        "\<lparr>ring_dimension = 4, plaintext_modulus = 17\<rparr>"]
  by simp

end
